theory Spec2Isabelle
  imports Main
begin

section \<open>Data model of \<open>src/index.tsx\<close>\<close>

text \<open>
  The component \<open>App\<close> keeps six pieces of React state and, while a generation run is
  in flight, a set of suspended \<open>generateVariation\<close> calls, each holding the values its
  closure captured. The model is a record of the state variables plus the suspended
  calls, and a step function with one case per callback of the component.
\<close>

datatype gender = Boy | Girl

text \<open>
  \<open>interface PredictionResult\<close>. The optional fields \<open>imageUrl?\<close> and \<open>error?\<close> are
  \<open>None\<close> when absent or \<open>undefined\<close>.
\<close>

record PredictionResult =
  gender :: gender
  age :: int
  imageUrl :: "string option"
  loading :: bool
  error :: "string option"

text \<open>\<open>interface UploadedImage\<close>, without the \<open>File\<close> handle.\<close>

record UploadedImage =
  preview :: string
  base64Data :: string
  mimeType :: string

text \<open>
  The part of the client library's types that the component reads or writes: a part is
  an inline blob or a text, a response has optional candidates, each with an optional
  content with optional parts.
\<close>

datatype Blob = Blob (blob_mimeType: string) (blob_data: string)

datatype Part = Part (inlineData: "Blob option") (part_text: "string option")

datatype Content = Content (parts: "Part list option")

datatype Candidate = Candidate (content: "Content option")

datatype GenerateContentResponse =
  GenerateContentResponse (candidates: "Candidate list option")

record Request =
  model :: string
  contents :: "Part list"

text \<open>What the awaited client call does: the promise rejects, or resolves with a response.\<close>

datatype ClientOutcome = Rejects string | Resolves GenerateContentResponse

text \<open>The values that reach the \<open>catch\<close> block of \<open>generateVariation\<close>.\<close>

datatype js_error = TypeError | Error string | ClientError string

text \<open>
  A suspended \<open>generateVariation(item, index)\<close>: the arguments it was called with and the
  request it sent before it suspended at \<open>await\<close>.
\<close>

record Variation =
  item :: PredictionResult
  index :: nat
  request :: Request

text \<open>
  A suspended \<open>generatePrediction(targetGender)\<close> waiting at \<open>Promise.allSettled\<close>: the
  variations it spawned that have not settled yet.
\<close>

record Run =
  target :: gender
  pending :: "Variation list"

text \<open>
  The state of the component. The first six fields are the \<open>useState\<close> variables (the
  variable \<open>error\<close> of \<open>App\<close> is \<open>appError\<close> here, since \<open>error\<close> is the field of
  \<open>PredictionResult\<close>); \<open>runs\<close> are the suspended calls, \<open>console\<close> is what
  \<open>console.error\<close> has printed.
\<close>

record App =
  fatherImg :: "UploadedImage option"
  motherImg :: "UploadedImage option"
  fatherDominance :: int
  generatingTarget :: "gender option"
  appError :: "string option"
  results :: "PredictionResult list"
  runs :: "Run list"
  console :: "js_error list"

definition initial_results :: "PredictionResult list" where
  "initial_results =
    [\<lparr>gender = Boy, age = 5, imageUrl = None, loading = False, error = None\<rparr>,
     \<lparr>gender = Boy, age = 15, imageUrl = None, loading = False, error = None\<rparr>,
     \<lparr>gender = Boy, age = 25, imageUrl = None, loading = False, error = None\<rparr>,
     \<lparr>gender = Girl, age = 5, imageUrl = None, loading = False, error = None\<rparr>,
     \<lparr>gender = Girl, age = 15, imageUrl = None, loading = False, error = None\<rparr>,
     \<lparr>gender = Girl, age = 25, imageUrl = None, loading = False, error = None\<rparr>]"

definition initial :: App where
  "initial = \<lparr>fatherImg = None, motherImg = None, fatherDominance = 50,
     generatingTarget = None, appError = None, results = initial_results,
     runs = [], console = []\<rparr>"

section \<open>JavaScript values\<close>

text \<open>Truthiness of an optional string: \<open>undefined\<close>, \<open>null\<close> and \<open>""\<close> are falsy.\<close>

definition truthy :: "string option \<Rightarrow> bool" where
  "truthy v = (case v of None \<Rightarrow> False | Some s \<Rightarrow> s \<noteq> [])"

text \<open>
  A number in a template literal is converted by \<open>ToString\<close>; for a whole number that
  is its decimal numeral, with a minus sign below zero.
\<close>

definition digit :: "nat \<Rightarrow> char" where
  "digit d = ''0123456789'' ! d"

fun decimal :: "nat \<Rightarrow> string" where
  "decimal n = (if 10 \<le> n then decimal (n div 10) @ [digit (n mod 10)] else [digit n])"

declare decimal.simps [simp del]

definition toString :: "int \<Rightarrow> string" where
  "toString n = (if 0 \<le> n then decimal (nat n) else CHR ''-'' # decimal (nat (- n)))"

section \<open>The prompt and the request (lines 97 to 132)\<close>

definition genderTerm :: "PredictionResult \<Rightarrow> string" where
  "genderTerm it =
    (if gender it = Boy then (if age it > 18 then ''man'' else ''boy'')
     else (if age it > 18 then ''woman'' else ''girl''))"

definition prompt :: "PredictionResult \<Rightarrow> int \<Rightarrow> string" where
  "prompt it fatherDominance' =
    (let fatherPct = fatherDominance'; motherPct = 100 - fatherDominance' in
     ''\<newline>          Generate a photorealistic portrait of a '' @ toString (age it)
       @ ''-year-old '' @ genderTerm it
       @ ''.\<newline>          This person is the hypothetical child of the two people in the provided images.\<newline>          \<newline>          Blend the physical facial features of the first image (father) and the second image (mother).\<newline>          The facial structure and features should resemble the father by approximately ''
       @ toString fatherPct @ ''% and the mother by approximately ''
       @ toString motherPct
       @ ''%.\<newline>          \<newline>          Ensure the image is high quality, clear, and has a neutral background. \<newline>          Focus on facial accuracy and genetic blending.\<newline>        '')"

definition buildRequest ::
  "UploadedImage \<Rightarrow> UploadedImage \<Rightarrow> int \<Rightarrow> PredictionResult \<Rightarrow> Request" where
  "buildRequest f m w it =
    \<lparr>model = ''gemini-2.5-flash-image'',
     contents =
       [Part (Some (Blob (mimeType f) (base64Data f))) None,
        Part (Some (Blob (mimeType m) (base64Data m))) None,
        Part None (Some (prompt it w))]\<rparr>"

section \<open>Reading the response (lines 134 to 145)\<close>

text \<open>The \<open>for\<close> loop over the parts: the first part with \<open>inlineData\<close> ends it.\<close>

fun firstInlineData :: "Part list \<Rightarrow> string" where
  "firstInlineData [] = ''''"
| "firstInlineData (p # ps) =
    (case inlineData p of
       Some b \<Rightarrow> ''data:image/png;base64,'' @ blob_data b
     | None \<Rightarrow> firstInlineData ps)"

text \<open>
  \<open>response.candidates && response.candidates[0].content.parts\<close>: an empty array of
  candidates is truthy and its element 0 is \<open>undefined\<close>, so reading \<open>.content\<close> throws a
  TypeError, as reading \<open>.parts\<close> of an absent content does.
\<close>

definition generatedUrl :: "GenerateContentResponse \<Rightarrow> js_error + string" where
  "generatedUrl response =
    (case candidates response of
       None \<Rightarrow> Inr ''''
     | Some [] \<Rightarrow> Inl TypeError
     | Some (c # _) \<Rightarrow>
         (case content c of
            None \<Rightarrow> Inl TypeError
          | Some ct \<Rightarrow>
              (case parts ct of
                 None \<Rightarrow> Inr ''''
               | Some ps \<Rightarrow> Inr (firstInlineData ps))))"

text \<open>
  Everything between the \<open>await\<close> and the state update: the error that reaches \<open>catch\<close>,
  or the URL that is stored.
\<close>

definition awaited :: "ClientOutcome \<Rightarrow> js_error + string" where
  "awaited outcome =
    (case outcome of
       Rejects e \<Rightarrow> Inl (ClientError e)
     | Resolves response \<Rightarrow>
         (case generatedUrl response of
            Inl e \<Rightarrow> Inl e
          | Inr url \<Rightarrow> if url = [] then Inl (Error ''No image generated'') else Inr url))"

section \<open>The state updates of \<open>generateVariation\<close> (lines 147 to 159)\<close>

definition resolveSuccess :: "Variation \<Rightarrow> string \<Rightarrow> App \<Rightarrow> App" where
  "resolveSuccess v url s =
    s\<lparr>results := (results s)[index v := (item v)\<lparr>loading := False, imageUrl := Some url\<rparr>]\<rparr>"

definition resolveFailure :: "Variation \<Rightarrow> js_error \<Rightarrow> App \<Rightarrow> App" where
  "resolveFailure v err s =
    s\<lparr>console := console s @ [err],
      results := (results s)[index v :=
        (item v)\<lparr>loading := False, error := Some ''Failed to generate''\<rparr>]\<rparr>"

definition resume :: "Variation \<Rightarrow> ClientOutcome \<Rightarrow> App \<Rightarrow> App" where
  "resume v outcome s =
    (case awaited outcome of
       Inr url \<Rightarrow> resolveSuccess v url s
     | Inl err \<Rightarrow> resolveFailure v err s)"

section \<open>\<open>generatePrediction\<close> (lines 71 to 172)\<close>

text \<open>The update of lines 85 to 89.\<close>

definition beginRun :: "gender \<Rightarrow> PredictionResult list \<Rightarrow> PredictionResult list" where
  "beginRun targetGender prev =
    map (\<lambda>r. if gender r = targetGender
             then r\<lparr>loading := True, error := None, imageUrl := None\<rparr> else r) prev"

text \<open>
  Lines 164 to 166. \<open>results\<close> is the constant of the render that created the handler:
  the records as they were before the update of lines 85 to 89.
\<close>

definition tasks :: "gender \<Rightarrow> PredictionResult list \<Rightarrow> (PredictionResult \<times> nat) list" where
  "tasks targetGender rs =
    filter (\<lambda>(it, i). gender it = targetGender) (zip rs [0..<length rs])"

text \<open>
  The call \<open>generateVariation(item, index)\<close> up to its \<open>await\<close>: it builds the request
  from the images and the weight of the enclosing render, sends it and suspends.
\<close>

definition generateVariation ::
  "UploadedImage \<Rightarrow> UploadedImage \<Rightarrow> int \<Rightarrow> PredictionResult \<times> nat \<Rightarrow> Variation" where
  "generateVariation f m w task =
    (case task of (it, i) \<Rightarrow> \<lparr>item = it, index = i, request = buildRequest f m w it\<rparr>)"

text \<open>
  The synchronous part of \<open>generatePrediction\<close>, up to \<open>await Promise.allSettled\<close>.
  \<open>key\<close> is \<open>process.env.API_KEY\<close>. With no task to wait for, \<open>allSettled\<close> resolves at
  once and line 171 runs.
\<close>

definition generatePrediction :: "string option \<Rightarrow> gender \<Rightarrow> App \<Rightarrow> App" where
  "generatePrediction key targetGender s =
    (case (fatherImg s, motherImg s) of
       (Some f, Some m) \<Rightarrow>
         if \<not> truthy key then s\<lparr>appError := Some ''API Key is missing.''\<rparr>
         else
           let vs = map (generateVariation f m (fatherDominance s))
                        (tasks targetGender (results s));
               s' = s\<lparr>generatingTarget := Some targetGender, appError := None,
                      results := beginRun targetGender (results s)\<rparr>
           in if vs = [] then s'\<lparr>generatingTarget := None\<rparr>
              else s'\<lparr>runs := runs s @ [\<lparr>target = targetGender, pending = vs\<rparr>]\<rparr>
     | _ \<Rightarrow> s\<lparr>appError := Some ''Please upload photos of both parents first.''\<rparr>)"

text \<open>
  One suspended variation of one run settles: variation \<open>k\<close> of run \<open>r\<close> resumes with the
  outcome of its client call. When it was the last one of its run, \<open>Promise.allSettled\<close>
  resolves and line 171 runs in the same turn of the event loop, before any other
  callback.
\<close>

definition settle :: "nat \<Rightarrow> nat \<Rightarrow> ClientOutcome \<Rightarrow> App \<Rightarrow> App" where
  "settle r k outcome s =
    (if r < length (runs s) \<and> k < length (pending (runs s ! r)) then
       let run = runs s ! r;
           s' = resume (pending run ! k) outcome s;
           rest = take k (pending run) @ drop (Suc k) (pending run)
       in if rest = []
          then s'\<lparr>runs := take r (runs s) @ drop (Suc r) (runs s), generatingTarget := None\<rparr>
          else s'\<lparr>runs := (runs s)[r := run\<lparr>pending := rest\<rparr>]\<rparr>
     else s)"

section \<open>The component\<close>

text \<open>The \<open>disabled\<close> attribute of the two buttons (lines 302 and 339).\<close>

definition disabled :: "gender \<Rightarrow> App \<Rightarrow> bool" where
  "disabled g s =
    (case g of
       Boy \<Rightarrow> generatingTarget s \<noteq> None \<or> fatherImg s = None \<or> motherImg s = None
     | Girl \<Rightarrow> generatingTarget s \<noteq> None \<or> fatherImg s = None \<or> motherImg s = None)"

datatype parent = Father | Mother

datatype event =
    FileLoaded parent UploadedImage
  | FileRejected
  | SliderChange int
  | Click gender
  | Settled nat nat ClientOutcome

text \<open>
  One callback of the component: \<open>reader.onloadend\<close>, the rejection of a file that is no
  image, the slider's \<open>onChange\<close>, a click on one of the two buttons (a disabled button
  calls nothing), and the resumption of a suspended variation.
\<close>

fun step :: "string option \<Rightarrow> event \<Rightarrow> App \<Rightarrow> App" where
  "step key (FileLoaded Father img) s = s\<lparr>fatherImg := Some img, appError := None\<rparr>"
| "step key (FileLoaded Mother img) s = s\<lparr>motherImg := Some img, appError := None\<rparr>"
| "step key FileRejected s = s\<lparr>appError := Some ''Please upload a valid image file.''\<rparr>"
| "step key (SliderChange n) s = s\<lparr>fatherDominance := n\<rparr>"
| "step key (Click g) s = (if disabled g s then s else generatePrediction key g s)"
| "step key (Settled r k outcome) s = settle r k outcome s"

fun exec :: "string option \<Rightarrow> event list \<Rightarrow> App \<Rightarrow> App" where
  "exec key [] s = s"
| "exec key (e # es) s = exec key es (step key e s)"

inductive reachable :: "string option \<Rightarrow> App \<Rightarrow> bool" for key :: "string option" where
  reachable_initial: "reachable key initial"
| reachable_step: "reachable key s \<Longrightarrow> reachable key (step key e s)"

text \<open>
  What \<open>ResultCard\<close> shows for a record (lines 373 to 397): the spinner, the error, the
  image, or the placeholder, tested in this order.
\<close>

datatype status = Idle | Loading | Ready | Failed

definition status :: "PredictionResult \<Rightarrow> status" where
  "status r =
    (if loading r then Loading
     else if truthy (error r) then Failed
     else if truthy (imageUrl r) then Ready
     else Idle)"

section \<open>Invariants of the reachable states\<close>

text \<open>The six records keep their genders, in the order of the initial array.\<close>

definition genders_fixed :: "App \<Rightarrow> bool" where
  "genders_fixed s \<longleftrightarrow> map gender (results s) = [Boy, Boy, Boy, Girl, Girl, Girl]"

text \<open>
  At most one run is suspended. With none, the busy flag is clear and no record is
  loading; with one, the flag names its gender, and the records that are loading are
  those of its variations that have not settled.
\<close>

definition barrier :: "App \<Rightarrow> bool" where
  "barrier s \<longleftrightarrow>
     length (runs s) \<le> 1 \<and>
     (runs s = [] \<longrightarrow>
        generatingTarget s = None \<and> (\<forall>i < length (results s). \<not> loading (results s ! i))) \<and>
     (\<forall>run. runs s = [run] \<longrightarrow>
        generatingTarget s = Some (target run) \<and> pending run \<noteq> [] \<and>
        distinct (map index (pending run)) \<and>
        (\<forall>v \<in> set (pending run). index v < length (results s) \<and>
           gender (item v) = target run \<and> gender (results s ! index v) = target run) \<and>
        (\<forall>i < length (results s).
           loading (results s ! i) \<longleftrightarrow> i \<in> index ` set (pending run)))"

text \<open>A run is only ever started with both images and a key.\<close>

definition armed :: "string option \<Rightarrow> App \<Rightarrow> bool" where
  "armed key s \<longleftrightarrow>
     (generatingTarget s \<noteq> None \<longrightarrow> fatherImg s \<noteq> None \<and> motherImg s \<noteq> None \<and> truthy key)"

definition invariant :: "string option \<Rightarrow> App \<Rightarrow> bool" where
  "invariant key s \<longleftrightarrow> genders_fixed s \<and> barrier s \<and> armed key s"

text \<open>A record that is loading holds neither an image nor an error.\<close>

definition cleared :: "App \<Rightarrow> bool" where
  "cleared s \<longleftrightarrow>
     (\<forall>i < length (results s). loading (results s ! i) \<longrightarrow>
        imageUrl (results s ! i) = None \<and> error (results s ! i) = None)"

section \<open>Notions used to state the properties\<close>

text \<open>
  The image payloads a response returns, in the order of its candidates and of their
  parts. This follows the wording of the specification ("the first returned image
  payload"), not the code; it is compared with \<open>awaited\<close> below.
\<close>

definition returned_images :: "GenerateContentResponse \<Rightarrow> Blob list" where
  "returned_images response =
    (case candidates response of
       None \<Rightarrow> []
     | Some cs \<Rightarrow>
         concat (map (\<lambda>c. case content c of
                             None \<Rightarrow> []
                           | Some ct \<Rightarrow>
                               (case parts ct of
                                  None \<Rightarrow> []
                                | Some ps \<Rightarrow> List.map_filter inlineData ps)) cs))"

text \<open>
  The image payloads among the parts of the first candidate of a response, in order: the
  only ones the loop of lines 136 to 143 can reach.
\<close>

definition first_candidate_images :: "GenerateContentResponse \<Rightarrow> Blob list" where
  "first_candidate_images response =
    (case candidates response of
       Some (c # _) \<Rightarrow>
         (case content c of
            Some ct \<Rightarrow>
              (case parts ct of
                 Some ps \<Rightarrow> List.map_filter inlineData ps
               | None \<Rightarrow> [])
          | None \<Rightarrow> [])
     | _ \<Rightarrow> [])"

text \<open>Reading a decimal numeral back, to say which number a printed percentage denotes.\<close>

definition digit_value :: "char \<Rightarrow> nat" where
  "digit_value c = of_char c - 48"

definition read_decimal :: "string \<Rightarrow> nat" where
  "read_decimal str = foldl (\<lambda>a c. 10 * a + digit_value c) 0 str"

text \<open>
  A schedule settles the suspended variations of the one run in flight, one at a time and
  in any order: each entry names a position among those still pending and the outcome of
  that call. It drains a run of \<open>n\<close> pending variations when it settles all of them.
\<close>

fun drains :: "nat \<Rightarrow> (nat \<times> ClientOutcome) list \<Rightarrow> bool" where
  "drains n [] \<longleftrightarrow> n = 0"
| "drains n (c # rest) \<longleftrightarrow> fst c < n \<and> drains (n - 1) rest"

definition settlements :: "(nat \<times> ClientOutcome) list \<Rightarrow> event list" where
  "settlements sched = map (\<lambda>c. Settled 0 (fst c) (snd c)) sched"

section \<open>Example inputs\<close>

definition photo :: UploadedImage where
  "photo = \<lparr>preview = ''data:image/jpeg;base64,AAAA'', base64Data = ''AAAA'',
     mimeType = ''image/jpeg''\<rparr>"

text \<open>A response whose only candidate holds a text part and then one image.\<close>

definition image_response :: "string \<Rightarrow> ClientOutcome" where
  "image_response d = Resolves (GenerateContentResponse (Some
     [Candidate (Some (Content (Some
        [Part None (Some ''Here is the portrait.''),
         Part (Some (Blob ''image/jpeg'' d)) None])))]))"

text \<open>A response whose first candidate holds only text and whose second holds an image.\<close>

definition image_in_second_candidate :: GenerateContentResponse where
  "image_in_second_candidate = GenerateContentResponse (Some
     [Candidate (Some (Content (Some [Part None (Some ''First draft, no picture.'')]))),
      Candidate (Some (Content (Some [Part (Some (Blob ''image/png'' ''QQ'')) None])))])"

definition boy_run_started :: "event list" where
  "boy_run_started = [FileLoaded Father photo, FileLoaded Mother photo, Click Boy]"

text \<open>Event sequences of the examples.\<close>

definition parents_loaded :: "event list" where
  "parents_loaded = [FileLoaded Father photo, FileLoaded Mother photo]"

definition boy_run_one_settled :: "event list" where
  "boy_run_one_settled = boy_run_started @ [Settled 0 0 (image_response ''QQ'')]"

definition girl_run_two_settled :: "event list" where
  "girl_run_two_settled =
     [SliderChange 70, Settled 0 1 (Rejects ''timeout''), Settled 0 0 (image_response ''QQ'')]"

definition first_run_age5_failed :: "event list" where
  "first_run_age5_failed = boy_run_started @
     [Settled 0 0 (Rejects ''quota exceeded''), Settled 0 0 (image_response ''QQ''),
      Settled 0 0 (image_response ''RR'')]"

definition second_run_partly_settled :: "event list" where
  "second_run_partly_settled = first_run_age5_failed @
     [Click Boy, Settled 0 0 (image_response ''ZZ''), Settled 0 0 (Rejects ''timeout'')]"

definition age15_fails_only :: "event list" where
  "age15_fails_only =
     [Click Boy, Settled 0 2 (image_response ''CC''), Settled 0 0 (image_response ''AA''),
      Settled 0 0 (Rejects ''timeout'')]"

section \<open>Lemmas about the model\<close>

lemma length_beginRun [simp]: "length (beginRun g rs) = length rs"
  by (simp add: beginRun_def)

lemma gender_beginRun [simp]: "map gender (beginRun g rs) = map gender rs"
  by (simp add: beginRun_def)

lemma nth_beginRun:
  "i < length rs \<Longrightarrow> beginRun g rs ! i =
     (if gender (rs ! i) = g then (rs ! i)\<lparr>loading := True, error := None, imageUrl := None\<rparr>
      else rs ! i)"
  by (simp add: beginRun_def)

lemma set_tasks: "set (tasks g rs) = {(rs ! i, i) | i. i < length rs \<and> gender (rs ! i) = g}"
  by (auto simp: tasks_def set_zip)

lemma distinct_tasks: "distinct (map snd (tasks g rs))"
proof -
  have "distinct (map snd (zip rs [0..<length rs]))" by simp
  then show ?thesis unfolding tasks_def by (rule distinct_map_filter)
qed

lemma index_generateVariation [simp]: "index (generateVariation f m w t) = snd t"
  by (cases t) (simp add: generateVariation_def)

lemma item_generateVariation [simp]: "item (generateVariation f m w t) = fst t"
  by (cases t) (simp add: generateVariation_def)

lemma request_generateVariation [simp]:
  "request (generateVariation f m w t) = buildRequest f m w (fst t)"
  by (cases t) (simp add: generateVariation_def)

lemma length_six:
  assumes "map gender rs = [Boy, Boy, Boy, Girl, Girl, Girl]"
  shows "length rs = 6"
proof -
  have "length (map gender rs) = 6" unfolding assms by simp
  then show ?thesis by simp
qed

lemma gender_nth:
  assumes "map gender rs = [Boy, Boy, Boy, Girl, Girl, Girl]" "i < length rs"
  shows "gender (rs ! i) = [Boy, Boy, Boy, Girl, Girl, Girl] ! i"
  using assms by (metis nth_map)

lemma tasks_nonempty:
  assumes "map gender rs = [Boy, Boy, Boy, Girl, Girl, Girl]"
  shows "tasks g rs \<noteq> []"
proof -
  have len: "length rs = 6" using assms by (rule length_six)
  have b: "gender (rs ! 0) = Boy" using gender_nth [OF assms, of 0] len by simp
  have g: "gender (rs ! 3) = Girl" using gender_nth [OF assms, of 3] len by simp
  have "(rs ! 0, 0) \<in> set (tasks Boy rs)" using b len by (auto simp: set_tasks)
  moreover have "(rs ! 3, 3) \<in> set (tasks Girl rs)" using g len by (auto simp: set_tasks)
  ultimately show ?thesis by (cases g) auto
qed

lemma remove_nth_set:
  assumes "distinct (map f xs)" "k < length xs"
  shows "f ` set (take k xs @ drop (Suc k) xs) = f ` set xs - {f (xs ! k)}"
proof -
  have xs: "xs = take k xs @ xs ! k # drop (Suc k) xs"
    using assms(2) by (simp add: id_take_nth_drop)
  have "distinct (map f (take k xs @ xs ! k # drop (Suc k) xs))"
    using assms(1) xs by simp
  then have notin: "f (xs ! k) \<notin> f ` set (take k xs @ drop (Suc k) xs)"
    by auto
  have "f ` set xs = insert (f (xs ! k)) (f ` set (take k xs @ drop (Suc k) xs))"
    by (subst xs) auto
  with notin show ?thesis by auto
qed

lemma remove_nth_distinct:
  assumes "distinct (map f xs)"
  shows "distinct (map f (take k xs @ drop (Suc k) xs))"
proof -
  have "distinct (take k (map f xs) @ drop (Suc k) (map f xs))"
    using assms by (metis distinct_take distinct_drop distinct_append set_take_disj_set_drop_if_distinct Suc_n_not_le_n nat_le_linear le_SucI)
  then show ?thesis by (simp add: take_map drop_map)
qed

lemma remove_nth_subset: "set (take k xs @ drop (Suc k) xs) \<subseteq> set xs"
  by (auto dest: in_set_takeD in_set_dropD)

text \<open>What a resumed variation changes.\<close>

lemma resume_results:
  "results (resume v outcome s) =
     (results s)[index v := (item v)\<lparr>loading := False,
        imageUrl := (case awaited outcome of Inr url \<Rightarrow> Some url | Inl _ \<Rightarrow> imageUrl (item v)),
        error := (case awaited outcome of Inr _ \<Rightarrow> error (item v) | Inl _ \<Rightarrow> Some ''Failed to generate'')\<rparr>]"
  by (simp add: resume_def resolveSuccess_def resolveFailure_def split: sum.splits)

lemma resume_others [simp]:
  "runs (resume v outcome s) = runs s"
  "generatingTarget (resume v outcome s) = generatingTarget s"
  "fatherImg (resume v outcome s) = fatherImg s"
  "motherImg (resume v outcome s) = motherImg s"
  "fatherDominance (resume v outcome s) = fatherDominance s"
  "appError (resume v outcome s) = appError s"
  by (simp_all add: resume_def resolveSuccess_def resolveFailure_def split: sum.splits)

lemma generatePrediction_started:
  assumes "fatherImg s = Some f" "motherImg s = Some m" "truthy key"
    and "tasks g (results s) \<noteq> []"
  shows "generatePrediction key g s =
     s\<lparr>generatingTarget := Some g, appError := None,
       results := beginRun g (results s),
       runs := runs s @ [\<lparr>target = g,
         pending = map (generateVariation f m (fatherDominance s)) (tasks g (results s))\<rparr>]\<rparr>"
  using assms by (simp add: generatePrediction_def Let_def)

lemma generatePrediction_refused:
  assumes "fatherImg s = None \<or> motherImg s = None \<or> \<not> truthy key"
  shows "generatePrediction key g s =
     s\<lparr>appError := Some (if fatherImg s = None \<or> motherImg s = None
        then ''Please upload photos of both parents first.'' else ''API Key is missing.'')\<rparr>"
  using assms by (auto simp: generatePrediction_def split: option.splits)

lemma barrier_generatePrediction:
  assumes "genders_fixed s" "barrier s" "generatingTarget s = None"
  shows "barrier (generatePrediction key g s)"
proof (cases "fatherImg s = None \<or> motherImg s = None \<or> \<not> truthy key")
  case True
  then show ?thesis using assms(2) by (simp add: generatePrediction_refused barrier_def)
next
  case False
  then obtain f m where fm: "fatherImg s = Some f" "motherImg s = Some m" and key: "truthy key"
    by auto
  have ne: "tasks g (results s) \<noteq> []"
    using assms(1) by (simp add: genders_fixed_def tasks_nonempty)
  have empty: "runs s = []"
    using assms(2,3) unfolding barrier_def by (cases "runs s") (auto simp: le_Suc_eq)
  then have idle: "\<forall>i < length (results s). \<not> loading (results s ! i)"
    using assms(2) by (simp add: barrier_def)
  let ?vs = "map (generateVariation f m (fatherDominance s)) (tasks g (results s))"
  have idx: "index ` set ?vs = {i. i < length (results s) \<and> gender (results s ! i) = g}"
    by (auto simp: set_tasks image_iff)
  have dist: "distinct (map index ?vs)"
    using distinct_tasks [of g "results s"] by (simp add: comp_def)
  have mem: "\<forall>v \<in> set ?vs. index v < length (results s) \<and> gender (item v) = g
      \<and> gender (beginRun g (results s) ! index v) = g"
    by (auto simp: set_tasks nth_beginRun)
  have load: "\<forall>i < length (results s).
      loading (beginRun g (results s) ! i) \<longleftrightarrow> i \<in> index ` set ?vs"
    using idle unfolding idx by (simp add: nth_beginRun)
  show ?thesis
    unfolding generatePrediction_started [OF fm key ne] barrier_def
    using ne dist mem load by (simp add: empty)
qed

lemma genders_fixed_resume:
  assumes "genders_fixed s" "index v < length (results s) \<longrightarrow> gender (item v) = gender (results s ! index v)"
  shows "genders_fixed (resume v outcome s)"
proof -
  have "map gender ((results s)[index v := x]) = map gender (results s)"
    if "gender x = gender (item v)" for x
    using assms(2) that
    by (cases "index v < length (results s)")
      (simp_all add: map_update list_update_same_conv list_update_beyond)
  then show ?thesis using assms(1) by (simp add: genders_fixed_def resume_results)
qed

lemma settle_ignored:
  "\<not> (r < length (runs s) \<and> k < length (pending (runs s ! r))) \<Longrightarrow> settle r k outcome s = s"
  unfolding settle_def by (rule if_not_P)

lemma barrier_settle:
  assumes "barrier s"
  shows "barrier (settle r k outcome s)"
proof (cases "r < length (runs s) \<and> k < length (pending (runs s ! r))")
  case False
  then show ?thesis using assms by (simp add: settle_ignored)
next
  case True
  then obtain run where run: "runs s = [run]" and r: "r = 0"
    using assms unfolding barrier_def by (cases "runs s") (auto simp: le_Suc_eq)
  have k: "k < length (pending run)" using True run r by simp
  let ?v = "pending run ! k"
  let ?rest = "take k (pending run) @ drop (Suc k) (pending run)"
  let ?s' = "resume ?v outcome s"
  have inv: "generatingTarget s = Some (target run)" "distinct (map index (pending run))"
    "\<forall>v \<in> set (pending run). index v < length (results s) \<and>
           gender (item v) = target run \<and> gender (results s ! index v) = target run"
    "\<forall>i < length (results s). loading (results s ! i) \<longleftrightarrow> i \<in> index ` set (pending run)"
    using assms run by (simp_all add: barrier_def)
  have vin: "?v \<in> set (pending run)" using k by simp
  then have vlen: "index ?v < length (results s)" using inv(3) by blast
  have rest_idx: "index ` set ?rest = index ` set (pending run) - {index ?v}"
    using inv(2) k by (rule remove_nth_set)
  have rest_dist: "distinct (map index ?rest)"
    using inv(2) by (rule remove_nth_distinct)
  have rest_sub: "set ?rest \<subseteq> set (pending run)" by (rule remove_nth_subset)
  have len': "length (results ?s') = length (results s)" by (simp add: resume_results)
  have load': "loading (results ?s' ! i) \<longleftrightarrow> i \<in> index ` set ?rest"
    if "i < length (results s)" for i
    using that inv(4) vlen unfolding rest_idx by (auto simp: resume_results nth_list_update)
  have gen': "gender (results ?s' ! index v) = target run"
    if "v \<in> set (pending run)" for v
    using that inv(3) vin vlen by (auto simp: resume_results nth_list_update)
  show ?thesis
  proof (cases "?rest = []")
    case True
    have "settle r k outcome s = ?s'\<lparr>runs := [], generatingTarget := None\<rparr>"
      using True k run r by (auto simp: settle_def Let_def)
    moreover have "\<forall>i < length (results ?s'). \<not> loading (results ?s' ! i)"
      using load' True len' by simp
    ultimately show ?thesis by (simp add: barrier_def)
  next
    case False
    have "settle r k outcome s = ?s'\<lparr>runs := [run\<lparr>pending := ?rest\<rparr>]\<rparr>"
      using False k run r by (auto simp: settle_def Let_def)
    moreover have "\<forall>v \<in> set ?rest. index v < length (results ?s') \<and>
        gender (item v) = target run \<and> gender (results ?s' ! index v) = target run"
      using rest_sub inv(3) gen' len' by (metis subsetD)
    ultimately show ?thesis
      using False rest_dist load' len' inv(1) by (simp add: barrier_def)
  qed
qed

lemma settle_results:
  "results (settle r k outcome s) =
     (if r < length (runs s) \<and> k < length (pending (runs s ! r))
      then results (resume (pending (runs s ! r) ! k) outcome s) else results s)"
  by (simp add: settle_def Let_def)

lemma settle_others [simp]:
  "fatherImg (settle r k outcome s) = fatherImg s"
  "motherImg (settle r k outcome s) = motherImg s"
  "fatherDominance (settle r k outcome s) = fatherDominance s"
  "appError (settle r k outcome s) = appError s"
  by (simp_all add: settle_def Let_def)

lemma settle_generatingTarget:
  "generatingTarget (settle r k outcome s) = None \<or>
   generatingTarget (settle r k outcome s) = generatingTarget s"
  by (simp add: settle_def Let_def)

lemma invariant_settle:
  assumes "invariant key s"
  shows "invariant key (settle r k outcome s)"
proof -
  have b: "barrier (settle r k outcome s)"
    using assms by (simp add: invariant_def barrier_settle)
  have a: "armed key (settle r k outcome s)"
    using assms settle_generatingTarget [of r k outcome s]
    by (auto simp: invariant_def armed_def)
  have g: "genders_fixed (settle r k outcome s)"
  proof (cases "r < length (runs s) \<and> k < length (pending (runs s ! r))")
    case False
    then show ?thesis using assms by (simp add: settle_ignored invariant_def)
  next
    case True
    let ?v = "pending (runs s ! r) ! k"
    from True obtain run where run: "runs s = [run]" and r: "r = 0"
      using assms unfolding invariant_def barrier_def by (cases "runs s") (auto simp: le_Suc_eq)
    have "?v \<in> set (pending run)" using True run r by simp
    then have "gender (item ?v) = gender (results s ! index ?v)"
      using assms run unfolding invariant_def barrier_def by simp
    then have "genders_fixed (resume ?v outcome s)"
      using assms by (simp add: invariant_def genders_fixed_resume)
    then show ?thesis
      using True by (simp add: genders_fixed_def settle_results)
  qed
  from b a g show ?thesis by (simp add: invariant_def)
qed

lemma invariant_generatePrediction:
  assumes "invariant key s" "generatingTarget s = None"
  shows "invariant key (generatePrediction key g s)"
proof -
  have b: "barrier (generatePrediction key g s)"
    using assms by (simp add: invariant_def barrier_generatePrediction)
  have "genders_fixed (generatePrediction key g s) \<and> armed key (generatePrediction key g s)"
    using assms
    by (auto simp: generatePrediction_def invariant_def genders_fixed_def armed_def Let_def
        split: option.splits)
  with b show ?thesis by (simp add: invariant_def)
qed

lemma invariant_step:
  assumes "invariant key s"
  shows "invariant key (step key e s)"
proof (cases e)
  case (FileLoaded p img)
  then show ?thesis using assms
    by (cases p) (auto simp: invariant_def genders_fixed_def barrier_def armed_def)
next
  case FileRejected
  then show ?thesis using assms
    by (auto simp: invariant_def genders_fixed_def barrier_def armed_def)
next
  case (SliderChange n)
  then show ?thesis using assms
    by (auto simp: invariant_def genders_fixed_def barrier_def armed_def)
next
  case (Click g)
  show ?thesis
  proof (cases "disabled g s")
    case True
    then show ?thesis using assms Click by simp
  next
    case False
    then have "generatingTarget s = None" by (cases g) (simp_all add: disabled_def)
    then show ?thesis using assms Click False by (simp add: invariant_generatePrediction)
  qed
next
  case (Settled r k outcome)
  then show ?thesis using assms by (simp add: invariant_settle)
qed

lemma invariant_initial: "invariant key initial"
  by (simp add: invariant_def genders_fixed_def barrier_def armed_def initial_def
      initial_results_def nth_Cons split: nat.splits)

lemma reachable_invariant: "reachable key s \<Longrightarrow> invariant key s"
  by (induction rule: reachable.induct) (simp_all add: invariant_initial invariant_step)

lemma reachable_exec: "reachable key s \<Longrightarrow> reachable key (exec key es s)"
  by (induction es arbitrary: s) (simp_all add: reachable_step)

lemma status_Loading [simp]: "status r = Loading \<longleftrightarrow> loading r"
  by (simp add: status_def)

lemma reachable_barrier: "reachable key s \<Longrightarrow> barrier s"
  using reachable_invariant by (simp add: invariant_def)

lemma drains_0: "drains 0 sched \<longleftrightarrow> sched = []"
  by (cases sched) simp_all

lemma remove_nth_empty:
  assumes "k < length xs"
  shows "take k xs @ drop (Suc k) xs = [] \<longleftrightarrow> length xs = 1"
proof -
  have "length (take k xs @ drop (Suc k) xs) = length xs - 1" using assms by simp
  moreover have "0 < length xs" using assms by arith
  ultimately have "length (take k xs @ drop (Suc k) xs) = 0 \<longleftrightarrow> length xs = 1"
    by arith
  then show ?thesis by (simp only: length_0_conv)
qed

lemma settle_runs:
  assumes "runs s = [run]" "k < length (pending run)"
  shows "runs (settle 0 k outcome s) =
     (if length (pending run) = 1 then []
      else [run\<lparr>pending := take k (pending run) @ drop (Suc k) (pending run)\<rparr>])"
    and "length (pending run) = 1 \<Longrightarrow> generatingTarget (settle 0 k outcome s) = None"
  using assms remove_nth_empty [OF assms(2)] by (simp_all add: settle_def Let_def)

lemma run_drained:
  assumes "barrier s" "runs s = [run]" "drains (length (pending run)) sched"
  shows "runs (exec key (settlements sched) s) = [] \<and>
         generatingTarget (exec key (settlements sched) s) = None"
  using assms
proof (induction sched arbitrary: s run)
  case Nil
  then show ?case by (simp add: barrier_def)
next
  case (Cons c rest)
  obtain k outcome where c: "c = (k, outcome)" by (cases c)
  have k: "k < length (pending run)" using Cons.prems(3) c by simp
  have d: "drains (length (pending run) - 1) rest" using Cons.prems(3) by simp
  let ?s' = "settle 0 k outcome s"
  have ex: "exec key (settlements (c # rest)) s = exec key (settlements rest) ?s'"
    by (simp add: settlements_def c)
  show ?case
  proof (cases "length (pending run) = 1")
    case True
    then have "rest = []" using d by (simp add: drains_0)
    then show ?thesis
      using settle_runs [OF Cons.prems(2) k, of outcome] True
      by (simp add: settlements_def c)
  next
    case False
    let ?run' = "run\<lparr>pending := take k (pending run) @ drop (Suc k) (pending run)\<rparr>"
    have r': "runs ?s' = [?run']"
      using settle_runs(1) [OF Cons.prems(2) k, of outcome] False by simp
    have len: "length (pending ?run') = length (pending run) - 1"
      using k by simp
    have "barrier ?s'" using Cons.prems(1) by (rule barrier_settle)
    from Cons.IH [OF this r'] d len show ?thesis
      unfolding ex by simp
  qed
qed

lemma disabled_iff:
  "disabled g s \<longleftrightarrow> generatingTarget s \<noteq> None \<or> fatherImg s = None \<or> motherImg s = None"
  by (cases g) (simp_all add: disabled_def)

lemma pending_at_most_three:
  assumes "genders_fixed s" "barrier s" "runs s = [run]"
  shows "length (pending run) \<le> 3"
proof -
  let ?G = "[Boy, Boy, Boy, Girl, Girl, Girl]"
  have g: "map gender (results s) = ?G" using assms(1) by (simp add: genders_fixed_def)
  have len: "length (results s) = 6" using g by (rule length_six)
  have dist: "distinct (map index (pending run))"
    and mem: "\<forall>v \<in> set (pending run). index v < length (results s) \<and>
           gender (item v) = target run \<and> gender (results s ! index v) = target run"
    using assms(2,3) by (simp_all add: barrier_def)
  have six: "i \<in> {0, 1, 2, 3, 4, 5}" if "i < 6" for i :: nat
    using that by auto
  have sub: "index ` set (pending run) \<subseteq> (if target run = Boy then {0, 1, 2} else {3, 4, 5})"
  proof
    fix i assume "i \<in> index ` set (pending run)"
    then have i: "i < 6" and t: "gender (results s ! i) = target run"
      using mem len by auto
    have "?G ! i = target run" using gender_nth [OF g, of i] i len t by simp
    then show "i \<in> (if target run = Boy then {0, 1, 2} else {3, 4, 5})"
      using six [OF i] by (cases "target run") auto
  qed
  have "card (index ` set (pending run)) \<le> card (if target run = Boy then {0, 1, 2} else {3, 4, 5::nat})"
    using sub by (intro card_mono) auto
  also have "\<dots> = 3" by simp
  finally have "card (set (map index (pending run))) \<le> 3" by simp
  moreover have "card (set (map index (pending run))) = length (map index (pending run))"
    using dist by (rule distinct_card)
  ultimately show ?thesis by simp
qed

lemma generatePrediction_results:
  "results (generatePrediction key g s) = results s \<or>
   results (generatePrediction key g s) = beginRun g (results s)"
  by (simp add: generatePrediction_def Let_def split: option.splits)

lemma generatePrediction_generatingTarget:
  "generatingTarget (generatePrediction key g s) = generatingTarget s \<or>
   generatingTarget (generatePrediction key g s) = Some g \<or>
   generatingTarget (generatePrediction key g s) = None"
  by (simp add: generatePrediction_def Let_def split: option.splits)

lemma step_frame:
  assumes "invariant key s" "generatingTarget s \<noteq> Some g'" "e \<noteq> Click g'"
    and "i < length (results s)" "gender (results s ! i) = g'"
  shows "results (step key e s) ! i = results s ! i"
    and "generatingTarget (step key e s) \<noteq> Some g'"
proof -
  have both: "results (step key e s) ! i = results s ! i \<and>
      generatingTarget (step key e s) \<noteq> Some g'"
  proof (cases e)
    case (FileLoaded p img)
    then show ?thesis using assms(2) by (cases p) simp_all
  next
    case FileRejected
    then show ?thesis using assms(2) by simp
  next
    case (SliderChange n)
    then show ?thesis using assms(2) by simp
  next
    case (Click g)
    then have neq: "g \<noteq> g'" using assms(3) by simp
    have "beginRun g (results s) ! i = results s ! i"
      using assms(4,5) neq by (simp add: nth_beginRun)
    then show ?thesis
      using Click neq assms(2) generatePrediction_results [of key g s]
        generatePrediction_generatingTarget [of key g s]
      by auto
  next
    case (Settled r k outcome)
    have gt: "generatingTarget (settle r k outcome s) \<noteq> Some g'"
      using settle_generatingTarget [of r k outcome s] assms(2) by auto
    have "results (settle r k outcome s) ! i = results s ! i"
    proof (cases "r < length (runs s) \<and> k < length (pending (runs s ! r))")
      case False
      then show ?thesis by (simp add: settle_ignored)
    next
      case True
      have b: "barrier s" using assms(1) by (simp add: invariant_def)
      from True obtain run where run: "runs s = [run]" and r: "r = 0"
        using b unfolding barrier_def by (cases "runs s") (auto simp: le_Suc_eq)
      let ?v = "pending run ! k"
      have "?v \<in> set (pending run)" using True run r by simp
      then have "gender (results s ! index ?v) = target run"
        and "generatingTarget s = Some (target run)"
        using b run by (simp_all add: barrier_def)
      then have "index ?v \<noteq> i" using assms(2,5) by auto
      then show ?thesis using True run r by (simp add: settle_results resume_results)
    qed
    with gt Settled show ?thesis by simp
  qed
  from both show "results (step key e s) ! i = results s ! i" ..
  from both show "generatingTarget (step key e s) \<noteq> Some g'" ..
qed

lemma invariant_length: "invariant key s \<Longrightarrow> length (results s) = 6"
  by (simp add: invariant_def genders_fixed_def length_six)

lemma exec_frame:
  assumes "invariant key s" "generatingTarget s \<noteq> Some g'" "Click g' \<notin> set es"
    and "i < length (results s)" "gender (results s ! i) = g'"
  shows "results (exec key es s) ! i = results s ! i"
  using assms
proof (induction es arbitrary: s)
  case Nil
  then show ?case by simp
next
  case (Cons e es)
  have e: "e \<noteq> Click g'" using Cons.prems(3) by auto
  have inv': "invariant key (step key e s)" using Cons.prems(1) by (rule invariant_step)
  have same: "results (step key e s) ! i = results s ! i"
    and gt: "generatingTarget (step key e s) \<noteq> Some g'"
    using step_frame [OF Cons.prems(1,2) e Cons.prems(4,5)] by simp_all
  have len: "i < length (results (step key e s))"
    using Cons.prems(1,4) inv' by (simp add: invariant_length)
  have "results (exec key es (step key e s)) ! i = results (step key e s) ! i"
    using Cons.IH [OF inv' gt _ len] Cons.prems(3,5) same by simp
  then show ?case using same by simp
qed

lemma firstInlineData_images:
  "firstInlineData ps =
     (case List.map_filter inlineData ps of
        [] \<Rightarrow> []
      | b # _ \<Rightarrow> ''data:image/png;base64,'' @ blob_data b)"
  by (induction ps) (simp_all add: List.map_filter_simps split: option.splits)

lemma awaited_Inr:
  assumes "awaited outcome = Inr url"
  shows "\<exists>response. outcome = Resolves response \<and> returned_images response \<noteq> [] \<and>
           url = ''data:image/png;base64,'' @ blob_data (hd (returned_images response))"
proof (cases outcome)
  case (Rejects e)
  then show ?thesis using assms by (simp add: awaited_def)
next
  case (Resolves response)
  from assms Resolves obtain c cs ct ps where
    c: "candidates response = Some (c # cs)" "content c = Some ct" "parts ct = Some ps"
    and u: "url = firstInlineData ps" "url \<noteq> []"
    by (auto simp: awaited_def generatedUrl_def
        split: option.splits list.splits sum.splits if_splits)
  from u obtain b bs where b: "List.map_filter inlineData ps = b # bs"
    and url: "url = ''data:image/png;base64,'' @ blob_data b"
    by (auto simp: firstInlineData_images split: list.splits)
  have "hd (returned_images response) = b" "returned_images response \<noteq> []"
    using c b by (simp_all add: returned_images_def)
  then show ?thesis using Resolves url by simp
qed

lemma awaited_no_image:
  assumes "returned_images response = []"
  shows "\<exists>err. awaited (Resolves response) = Inl err"
proof (cases "awaited (Resolves response)")
  case (Inl err)
  then show ?thesis by simp
next
  case (Inr url)
  then show ?thesis using awaited_Inr [OF Inr] assms by auto
qed

lemma awaited_first_image:
  assumes "first_candidate_images response = b # bs"
  shows "awaited (Resolves response) = Inr (''data:image/png;base64,'' @ blob_data b)"
proof -
  from assms obtain c cs ct ps where
    "candidates response = Some (c # cs)" "content c = Some ct" "parts ct = Some ps"
    "List.map_filter inlineData ps = b # bs"
    by (auto simp: first_candidate_images_def split: option.splits list.splits)
  then show ?thesis
    by (simp add: awaited_def generatedUrl_def firstInlineData_images)
qed

lemma awaited_no_first_image:
  assumes "first_candidate_images response = []"
  shows "awaited (Resolves response) = Inl TypeError \<or>
         awaited (Resolves response) = Inl (Error ''No image generated'')"
  using assms
  by (auto simp: first_candidate_images_def awaited_def generatedUrl_def firstInlineData_images
      split: option.splits list.splits)

lemma awaited_Inr_first:
  assumes "awaited outcome = Inr url"
  shows "\<exists>response b bs. outcome = Resolves response \<and>
           first_candidate_images response = b # bs \<and>
           url = ''data:image/png;base64,'' @ blob_data b"
proof (cases outcome)
  case (Rejects e)
  then show ?thesis using assms by (simp add: awaited_def)
next
  case (Resolves response)
  show ?thesis
  proof (cases "first_candidate_images response")
    case Nil
    then show ?thesis
      using awaited_no_first_image [of response] assms Resolves by auto
  next
    case (Cons b bs)
    then show ?thesis
      using awaited_first_image [OF Cons] assms Resolves by auto
  qed
qed

lemma step_results_cases:
  "results (step key e s) = results s
   \<or> (\<exists>g. e = Click g \<and> results (step key e s) = beginRun g (results s))
   \<or> (\<exists>r k outcome. e = Settled r k outcome \<and> r < length (runs s) \<and>
        k < length (pending (runs s ! r)) \<and>
        results (step key e s) = results (resume (pending (runs s ! r) ! k) outcome s))"
proof (cases e)
  case (FileLoaded p img)
  then show ?thesis by (cases p) simp_all
next
  case (Click g)
  then show ?thesis using generatePrediction_results [of key g s] by auto
next
  case (Settled r k outcome)
  then show ?thesis by (auto simp: settle_results)
qed simp_all

lemma digit_value_digit: "d < 10 \<Longrightarrow> digit_value (digit d) = d"
proof -
  assume "d < 10"
  then have "d \<in> {0, 1, 2, 3, 4, 5, 6, 7, 8, 9}" by auto
  then show ?thesis by (auto simp: digit_def digit_value_def)
qed

lemma read_decimal_snoc: "read_decimal (str @ [c]) = 10 * read_decimal str + digit_value c"
  by (simp add: read_decimal_def)

lemma read_decimal_decimal: "read_decimal (decimal n) = n"
proof (induction n rule: decimal.induct)
  case (1 n)
  show ?case
  proof (cases "10 \<le> n")
    case True
    then have "read_decimal (decimal n) = 10 * (n div 10) + n mod 10"
      using 1 by (subst decimal.simps) (simp add: read_decimal_snoc digit_value_digit)
    then show ?thesis by simp
  next
    case False
    then have "decimal n = [digit n]" by (subst decimal.simps) simp
    then show ?thesis using False by (simp add: read_decimal_def digit_value_digit)
  qed
qed

lemma nth_update_unless:
  "xs[i := x] ! j = (if i = j \<and> i < length xs then x else xs ! j)"
  by (cases "i < length xs") (auto simp: nth_list_update list_update_beyond)

lemma cleared_step:
  assumes "cleared s"
  shows "cleared (step key e s)"
proof -
  consider "results (step key e s) = results s"
    | g where "e = Click g" "results (step key e s) = beginRun g (results s)"
    | r k outcome where "e = Settled r k outcome" "r < length (runs s)"
        "k < length (pending (runs s ! r))"
        "results (step key e s) = results (resume (pending (runs s ! r) ! k) outcome s)"
    using step_results_cases [of key e s] by blast
  then show ?thesis
  proof cases
    case 1
    then show ?thesis using assms by (simp add: cleared_def)
  next
    case 2
    then show ?thesis using assms by (simp add: cleared_def nth_beginRun)
  next
    case 3
    then show ?thesis using assms
      by (simp add: cleared_def resume_results nth_update_unless)
  qed
qed

lemma reachable_cleared: "reachable key s \<Longrightarrow> cleared s"
proof (induction rule: reachable.induct)
  case reachable_initial
  show ?case
    by (simp add: cleared_def initial_def initial_results_def nth_Cons split: nat.splits)
next
  case (reachable_step s e)
  then show ?case by (simp add: cleared_step)
qed

text \<open>
  The part of C1 that holds, and the two facts behind C6: a settled variation changes its
  own record only, and whether that record is shown as ready also depends on the error of
  the record it captured.
\<close>

lemma loading_or_idle_fields:
  assumes "reachable key s" "i < length (results s)"
  shows "status (results s ! i) = Loading \<longrightarrow>
           imageUrl (results s ! i) = None \<and> error (results s ! i) = None"
    and "status (results s ! i) = Idle \<longrightarrow>
           \<not> truthy (imageUrl (results s ! i)) \<and> \<not> truthy (error (results s ! i))"
  using reachable_cleared [OF assms(1)] assms(2)
  by (auto simp: cleared_def status_def split: if_splits)

lemma awaited_url_nonempty: "awaited outcome = Inr url \<Longrightarrow> url \<noteq> []"
  by (auto simp: awaited_def split: ClientOutcome.splits sum.splits if_splits)

lemma resume_touches_own_record:
  "j \<noteq> index v \<Longrightarrow> results (resume v outcome s) ! j = results s ! j"
  by (simp add: resume_results)

lemma resume_status:
  assumes "index v < length (results s)"
  shows "status (results (resume v outcome s) ! index v) =
     (case awaited outcome of
        Inl err \<Rightarrow> Failed
      | Inr url \<Rightarrow> if truthy (error (item v)) then Failed else Ready)"
  using assms awaited_url_nonempty [of outcome]
  by (auto simp: resume_results status_def truthy_def split: sum.splits)

section \<open>The claims\<close>

text \<open>
  C1. The claim is that in every reachable state a record that is ready or failed holds at
  most one of \<open>imageUrl\<close> and \<open>error\<close>, also after a second run for the same gender.
  The part about loading and idle records holds (\<open>loading_or_idle_fields\<close>). The rest
  fails on the code: \<open>generateVariation\<close> writes back the record it was called with, which
  is the record of the render that created the click handler, from before lines 85 to 89
  cleared it. In the second run below every call of the first run has settled (age 5
  failed, ages 15 and 25 succeeded); then the call for age 5 succeeds and the one for
  age 15 is rejected. Both records end with an image and an error, and the card shows the
  error for both.
\<close>

theorem stale_fields_after_second_run:
  "map (\<lambda>r. (status r, imageUrl r, error r))
      (results (exec (Some ''k'') second_run_partly_settled initial))
   = [(Failed, Some ''data:image/png;base64,ZZ'', Some ''Failed to generate''),
      (Failed, Some ''data:image/png;base64,QQ'', Some ''Failed to generate''),
      (Loading, None, None), (Idle, None, None), (Idle, None, None), (Idle, None, None)]"
  by code_simp

text \<open>
  C2, as stated, fails: \<open>generatePrediction\<close> has no check of the busy flag. Called while
  the run for boys is in flight and its first variation has settled, it reports no error,
  sets the settled record back to loading and suspends a second run.
\<close>

theorem already_running_counterexample:
  "generatingTarget (exec (Some ''k'') boy_run_one_settled initial) = Some Boy
   \<and> map status (results (exec (Some ''k'') boy_run_one_settled initial))
       = [Ready, Loading, Loading, Idle, Idle, Idle]
   \<and> length (runs (exec (Some ''k'') boy_run_one_settled initial)) = 1
   \<and> appError (generatePrediction (Some ''k'') Boy (exec (Some ''k'') boy_run_one_settled initial))
       = None
   \<and> map status (results
        (generatePrediction (Some ''k'') Boy (exec (Some ''k'') boy_run_one_settled initial)))
       = [Loading, Loading, Loading, Idle, Idle, Idle]
   \<and> length (runs
        (generatePrediction (Some ''k'') Boy (exec (Some ''k'') boy_run_one_settled initial))) = 2"
  by code_simp

text \<open>
  C2, amended. What keeps a second invocation away is the \<open>disabled\<close> attribute of the
  button: in every reachable state with a run for gender \<open>g\<close> in flight, a click on the
  button of \<open>g\<close> changes nothing (no error is reported either), exactly one run is
  suspended, for \<open>g\<close>, with at most three variations pending, and every schedule that
  settles them all, in any order and with any outcomes, ends with no suspended call and
  the busy flag cleared.
\<close>

theorem click_ignored_while_busy:
  assumes "reachable key s" "generatingTarget s = Some g"
  shows "step key (Click g) s = s
       \<and> (\<exists>run. runs s = [run] \<and> target run = g \<and> length (pending run) \<le> 3
            \<and> (\<forall>sched. drains (length (pending run)) sched \<longrightarrow>
                  runs (exec key (Click g # settlements sched) s) = [] \<and>
                  generatingTarget (exec key (Click g # settlements sched) s) = None))"
proof -
  have b: "barrier s" using assms(1) by (rule reachable_barrier)
  have ign: "step key (Click g) s = s" using assms(2) by (simp add: disabled_iff)
  obtain run where run: "runs s = [run]"
    using b assms(2) unfolding barrier_def by (cases "runs s") (auto simp: le_Suc_eq)
  have t: "target run = g" using b run assms(2) by (simp add: barrier_def)
  have three: "length (pending run) \<le> 3"
    using reachable_invariant [OF assms(1)] b run
    by (auto simp: invariant_def intro: pending_at_most_three)
  have "runs (exec key (Click g # settlements sched) s) = [] \<and>
        generatingTarget (exec key (Click g # settlements sched) s) = None"
    if "drains (length (pending run)) sched" for sched
    using run_drained [OF b run that, of key] ign by simp
  then show ?thesis using ign run t three by blast
qed

theorem click_ignored_while_busy_witness:
  "step (Some ''k'') (Click Boy) (exec (Some ''k'') boy_run_one_settled initial)
     = exec (Some ''k'') boy_run_one_settled initial
   \<and> generatingTarget (exec (Some ''k'')
        (Click Boy # settlements [(1, Rejects ''timeout''), (0, image_response ''ZZ'')])
        (exec (Some ''k'') boy_run_one_settled initial)) = None
   \<and> runs (exec (Some ''k'')
        (Click Boy # settlements [(1, Rejects ''timeout''), (0, image_response ''ZZ'')])
        (exec (Some ''k'') boy_run_one_settled initial)) = []"
proof -
  let ?s = "exec (Some ''k'') boy_run_one_settled initial"
  have r: "reachable (Some ''k'') ?s"
    by (intro reachable_exec reachable_initial)
  have g: "generatingTarget ?s = Some Boy" by code_simp
  have n: "length (pending (hd (runs ?s))) = 2" by code_simp
  have d: "drains 2 [(1, Rejects ''timeout''), (0, image_response ''ZZ'')]" by simp
  from click_ignored_while_busy [OF r g] n d show ?thesis by auto
qed

text \<open>
  C3, as stated, fails: with both images present and the run for boys in flight, the button
  for girls is disabled, and a click on it changes nothing.
\<close>

theorem other_trigger_counterexample:
  "fatherImg (exec (Some ''k'') boy_run_started initial) \<noteq> None
   \<and> motherImg (exec (Some ''k'') boy_run_started initial) \<noteq> None
   \<and> generatingTarget (exec (Some ''k'') boy_run_started initial) = Some Boy
   \<and> disabled Girl (exec (Some ''k'') boy_run_started initial)
   \<and> step (Some ''k'') (Click Girl) (exec (Some ''k'') boy_run_started initial)
       = exec (Some ''k'') boy_run_started initial"
  by code_simp

text \<open>
  C3, amended. Both buttons carry the same \<open>disabled\<close> expression: a button is disabled
  exactly when some run is in flight or a parent image is missing. So in every reachable
  state at most one run is in flight, and while one is, both buttons are disabled and a
  click on either changes nothing: runs for different genders never overlap.
\<close>

theorem triggers_disabled_while_busy:
  assumes "reachable key s"
  shows "(disabled g s \<longleftrightarrow>
            generatingTarget s \<noteq> None \<or> fatherImg s = None \<or> motherImg s = None)
       \<and> length (runs s) \<le> 1
       \<and> (generatingTarget s \<noteq> None \<longrightarrow>
            disabled Boy s \<and> disabled Girl s \<and> step key (Click g) s = s)"
proof -
  have "barrier s" using assms by (rule reachable_barrier)
  then have "length (runs s) \<le> 1" by (simp add: barrier_def)
  then show ?thesis by (simp add: disabled_iff)
qed

theorem triggers_disabled_while_busy_witness:
  "disabled Boy (exec (Some ''k'') boy_run_started initial)
   \<and> disabled Girl (exec (Some ''k'') boy_run_started initial)
   \<and> length (runs (exec (Some ''k'') boy_run_started initial)) \<le> 1
   \<and> step (Some ''k'') (Click Girl) (exec (Some ''k'') boy_run_started initial)
       = exec (Some ''k'') boy_run_started initial"
proof -
  have r: "reachable (Some ''k'') (exec (Some ''k'') boy_run_started initial)"
    by (intro reachable_exec reachable_initial)
  have g: "generatingTarget (exec (Some ''k'') boy_run_started initial) = Some Boy"
    by code_simp
  show ?thesis
    using triggers_disabled_while_busy [OF r, of Girl] g by simp
qed

text \<open>
  C4. When a parent image is missing, \<open>generatePrediction\<close> only sets the error message
  "Please upload photos of both parents first." (the missing-input failure); when both
  images are present and the key is missing or empty, it only sets "API Key is missing."
  (the missing-credential failure; the images are checked first). In both cases the six
  records, the busy flag and the suspended calls are as before, and in a reachable state
  the busy flag is clear before and after.
\<close>

theorem preconditions_checked_first:
  "(fatherImg s = None \<or> motherImg s = None \<longrightarrow>
      generatePrediction key g s =
        s\<lparr>appError := Some ''Please upload photos of both parents first.''\<rparr>)
   \<and> (fatherImg s \<noteq> None \<and> motherImg s \<noteq> None \<and> \<not> truthy key \<longrightarrow>
      generatePrediction key g s = s\<lparr>appError := Some ''API Key is missing.''\<rparr>)
   \<and> (fatherImg s = None \<or> motherImg s = None \<or> \<not> truthy key \<longrightarrow>
      results (generatePrediction key g s) = results s
      \<and> generatingTarget (generatePrediction key g s) = generatingTarget s
      \<and> runs (generatePrediction key g s) = runs s
      \<and> (reachable key s \<longrightarrow>
            generatingTarget s = None \<and> generatingTarget (generatePrediction key g s) = None))"
proof -
  have "generatingTarget s = None"
    if "reachable key s" "fatherImg s = None \<or> motherImg s = None \<or> \<not> truthy key"
    using reachable_invariant [OF that(1)] that(2) by (auto simp: invariant_def armed_def)
  then show ?thesis
    by (auto simp: generatePrediction_refused)
qed

theorem preconditions_checked_first_witness:
  "generatePrediction None Boy initial =
     initial\<lparr>appError := Some ''Please upload photos of both parents first.''\<rparr>
   \<and> generatePrediction (Some '''') Girl (exec (Some '''') parents_loaded initial) =
     (exec (Some '''') parents_loaded initial)\<lparr>appError := Some ''API Key is missing.''\<rparr>
   \<and> map status (results (generatePrediction (Some '''') Girl (exec (Some '''') parents_loaded initial)))
       = [Idle, Idle, Idle, Idle, Idle, Idle]
   \<and> generatingTarget (generatePrediction (Some '''') Girl (exec (Some '''') parents_loaded initial))
       = None"
proof -
  let ?s = "exec (Some '''') parents_loaded initial"
  have r: "reachable (Some '''') ?s" by (intro reachable_exec reachable_initial)
  have a: "fatherImg initial = None" "fatherImg ?s \<noteq> None" "motherImg ?s \<noteq> None"
    "\<not> truthy (Some '''')" "map status (results ?s) = [Idle, Idle, Idle, Idle, Idle, Idle]"
    by code_simp+
  show ?thesis
    using preconditions_checked_first [of initial None Boy]
      preconditions_checked_first [of ?s "Some ''''" Girl] r a
    by simp
qed

text \<open>
  C5. From a reachable state with no run of the other gender \<open>g'\<close> in flight, a click on
  the button of \<open>g\<close> followed by any events other than a click on the button of \<open>g'\<close>
  (settlements in any order and with any outcomes, uploads, slider changes, further
  clicks on \<open>g\<close>) leaves every record of gender \<open>g'\<close> equal to what it was. The events
  are arbitrary, so this holds at every intermediate point and after the run has settled.
\<close>

theorem other_gender_untouched:
  assumes "reachable key s" "generatingTarget s \<noteq> Some g'" "g' \<noteq> g" "Click g' \<notin> set es"
    and "i < length (results s)" "gender (results s ! i) = g'"
  shows "results (exec key (Click g # es) s) ! i = results s ! i"
proof -
  have "Click g' \<notin> set (Click g # es)" using assms(3,4) by auto
  then show ?thesis
    using exec_frame [OF reachable_invariant [OF assms(1)] assms(2) _ assms(5,6)] by blast
qed

theorem other_gender_untouched_witness:
  "results (exec (Some ''k'') (Click Girl # girl_run_two_settled)
       (exec (Some ''k'') parents_loaded initial)) ! 1
     = results (exec (Some ''k'') parents_loaded initial) ! 1
   \<and> map status (results (exec (Some ''k'') (Click Girl # girl_run_two_settled)
       (exec (Some ''k'') parents_loaded initial)))
     = [Idle, Idle, Idle, Ready, Failed, Loading]"
proof -
  let ?s = "exec (Some ''k'') parents_loaded initial"
  have r: "reachable (Some ''k'') ?s" by (intro reachable_exec reachable_initial)
  have a: "generatingTarget ?s \<noteq> Some Boy" by code_simp
  have b: "Click Boy \<notin> set girl_run_two_settled" by (simp add: girl_run_two_settled_def)
  have c: "1 < length (results ?s)" "gender (results ?s ! 1) = Boy" by code_simp+
  have d: "map status (results (exec (Some ''k'') (Click Girl # girl_run_two_settled) ?s))
     = [Idle, Idle, Idle, Ready, Failed, Loading]" by code_simp
  have "Boy \<noteq> Girl" by simp
  from other_gender_untouched [OF r a this b c] d show ?thesis by (intro conjI)
qed

text \<open>
  C6. The claim is that the final status of a record depends only on the outcome of its
  own call. A settled variation changes no record but its own
  (\<open>resume_touches_own_record\<close>), so no failure alters a sibling. But the status of its own
  record also depends on the record captured when the run started (\<open>resume_status\<close>): in
  the run below the call for age 15 fails and those for ages 5 and 25 succeed, completing
  in the order 25, 5, 15. Started from fresh records the run ends ready, failed, ready, as
  claimed; started after a run in which age 5 had failed, the same run with the same
  outcomes ends with age 5 failed. This is the defect of C1.
\<close>

theorem status_depends_on_previous_run:
  "map status (results (exec (Some ''k'') age15_fails_only
       (exec (Some ''k'') parents_loaded initial)))
     = [Ready, Failed, Ready, Idle, Idle, Idle]
   \<and> map status (results (exec (Some ''k'') age15_fails_only
       (exec (Some ''k'') first_run_age5_failed initial)))
     = [Failed, Failed, Ready, Idle, Idle, Idle]
   \<and> generatingTarget (exec (Some ''k'') age15_fails_only
       (exec (Some ''k'') first_run_age5_failed initial)) = None
   \<and> generatingTarget (exec (Some ''k'') first_run_age5_failed initial) = None"
  by code_simp

text \<open>
  C7 (fan-in barrier). In every reachable state the busy flag is clear of a gender exactly
  when no record of that gender is loading, and it is clear altogether exactly when no
  record is loading and exactly when no call is suspended. A step that clears the flag
  leaves no suspended call and no loading record: the flag is cleared only when the last
  variation of the run has settled.
\<close>

theorem fan_in_barrier:
  assumes "reachable key s"
  shows "(generatingTarget s \<noteq> Some g \<longleftrightarrow>
            (\<forall>i < length (results s). gender (results s ! i) = g \<longrightarrow> status (results s ! i) \<noteq> Loading))
       \<and> (generatingTarget s = None \<longleftrightarrow>
            (\<forall>i < length (results s). status (results s ! i) \<noteq> Loading))
       \<and> (generatingTarget s = None \<longleftrightarrow> runs s = [])
       \<and> (generatingTarget s \<noteq> None \<and> generatingTarget (step key e s) = None \<longrightarrow>
            runs (step key e s) = [] \<and>
            (\<forall>i < length (results (step key e s)). status (results (step key e s) ! i) \<noteq> Loading))"
proof -
  have b: "barrier s" using assms by (rule reachable_barrier)
  have b': "barrier (step key e s)"
    using assms by (rule reachable_barrier [OF reachable_step])
  have idle: "generatingTarget t = None \<longleftrightarrow> runs t = []" if "barrier t" for t
    using that unfolding barrier_def by (cases "runs t") (auto simp: le_Suc_eq)
  have part1: "generatingTarget s \<noteq> Some g \<longleftrightarrow>
      (\<forall>i < length (results s). gender (results s ! i) = g \<longrightarrow> \<not> loading (results s ! i))"
  proof (cases "runs s")
    case Nil
    then show ?thesis using b by (simp add: barrier_def)
  next
    case (Cons run rest)
    then have run: "runs s = [run]" using b by (simp add: barrier_def)
    have inv: "generatingTarget s = Some (target run)" "pending run \<noteq> []"
      "\<forall>v \<in> set (pending run). index v < length (results s) \<and>
           gender (item v) = target run \<and> gender (results s ! index v) = target run"
      "\<forall>i < length (results s). loading (results s ! i) \<longleftrightarrow> i \<in> index ` set (pending run)"
      using b run by (simp_all add: barrier_def)
    obtain v where v: "v \<in> set (pending run)" using inv(2) by (cases "pending run") auto
    show ?thesis
    proof (cases "g = target run")
      case True
      have "index v < length (results s)" "gender (results s ! index v) = g"
        "loading (results s ! index v)"
        using v inv(3,4) True by auto
      then show ?thesis using inv(1) True by auto
    next
      case False
      then show ?thesis using inv(1,3,4) by auto
    qed
  qed
  have part2: "generatingTarget t = None \<longleftrightarrow>
      (\<forall>i < length (results t). \<not> loading (results t ! i))" if "barrier t" for t
  proof (cases "runs t")
    case Nil
    then show ?thesis using that by (simp add: barrier_def)
  next
    case (Cons run rest)
    then have run: "runs t = [run]" using that by (simp add: barrier_def)
    have inv: "generatingTarget t = Some (target run)" "pending run \<noteq> []"
      "\<forall>v \<in> set (pending run). index v < length (results t) \<and>
           gender (item v) = target run \<and> gender (results t ! index v) = target run"
      "\<forall>i < length (results t). loading (results t ! i) \<longleftrightarrow> i \<in> index ` set (pending run)"
      using that run by (simp_all add: barrier_def)
    obtain v where v: "v \<in> set (pending run)" using inv(2) by (cases "pending run") auto
    have "index v < length (results t)" "loading (results t ! index v)"
      using v inv(3,4) by auto
    then show ?thesis using inv(1) by auto
  qed
  show ?thesis
    using part1 part2 [OF b] part2 [OF b'] idle [OF b] idle [OF b'] by simp
qed

theorem fan_in_barrier_witness:
  "generatingTarget (exec (Some ''k'') boy_run_started initial) = Some Boy
   \<and> (\<exists>i < length (results (exec (Some ''k'') boy_run_started initial)).
        gender (results (exec (Some ''k'') boy_run_started initial) ! i) = Boy
        \<and> status (results (exec (Some ''k'') boy_run_started initial) ! i) = Loading)
   \<and> runs (exec (Some ''k'') boy_run_started initial) \<noteq> []"
proof -
  have r: "reachable (Some ''k'') (exec (Some ''k'') boy_run_started initial)"
    by (intro reachable_exec reachable_initial)
  have g: "generatingTarget (exec (Some ''k'') boy_run_started initial) = Some Boy"
    by code_simp
  show ?thesis
    using fan_in_barrier [OF r, of Boy] g by auto
qed

text \<open>
  C8. For a record of age 5, 15 or 25 and a weight between 0 and 100 the prompt is the
  template of lines 102 to 111 filled with the age, the gender term, the weight and 100
  minus the weight, each printed as the decimal numeral of that number; the gender term
  is the adult one exactly when the age exceeds 18, which is age 25. The request of a
  variation carries this prompt after the two images; a run takes the weight from the
  state in which \<open>generatePrediction\<close> is called, and a later slider change leaves the
  suspended variations and their requests as they are.
\<close>

theorem prompt_from_task_and_weight:
  assumes "age it \<in> {5, 15, 25}" "0 \<le> w" "w \<le> 100"
  shows "prompt it w =
      ''\<newline>          Generate a photorealistic portrait of a '' @ toString (age it)
       @ ''-year-old '' @ genderTerm it
       @ ''.\<newline>          This person is the hypothetical child of the two people in the provided images.\<newline>          \<newline>          Blend the physical facial features of the first image (father) and the second image (mother).\<newline>          The facial structure and features should resemble the father by approximately ''
       @ toString w @ ''% and the mother by approximately '' @ toString (100 - w)
       @ ''%.\<newline>          \<newline>          Ensure the image is high quality, clear, and has a neutral background. \<newline>          Focus on facial accuracy and genetic blending.\<newline>        ''
    \<and> genderTerm it =
        (if 18 < age it then (if gender it = Boy then ''man'' else ''woman'')
         else (if gender it = Boy then ''boy'' else ''girl''))
    \<and> (18 < age it \<longleftrightarrow> age it = 25)
    \<and> read_decimal (toString (age it)) = nat (age it)
    \<and> read_decimal (toString w) = nat w
    \<and> read_decimal (toString (100 - w)) = 100 - nat w
    \<and> contents (request (generateVariation f m w (it, i))) =
        [Part (Some (Blob (mimeType f) (base64Data f))) None,
         Part (Some (Blob (mimeType m) (base64Data m))) None,
         Part None (Some (prompt it w))]
    \<and> (fatherImg s = Some f \<and> motherImg s = Some m \<and> truthy key \<and>
         tasks g (results s) \<noteq> [] \<longrightarrow>
         runs (generatePrediction key g s) = runs s @ [\<lparr>target = g,
           pending = map (generateVariation f m (fatherDominance s)) (tasks g (results s))\<rparr>])
    \<and> runs (step key (SliderChange n) s) = runs s"
proof -
  have a: "0 \<le> age it" "(18 < age it \<longleftrightarrow> age it = 25)" using assms(1) by auto
  have p: "prompt it w =
      ''\<newline>          Generate a photorealistic portrait of a '' @ toString (age it)
       @ ''-year-old '' @ genderTerm it
       @ ''.\<newline>          This person is the hypothetical child of the two people in the provided images.\<newline>          \<newline>          Blend the physical facial features of the first image (father) and the second image (mother).\<newline>          The facial structure and features should resemble the father by approximately ''
       @ toString w @ ''% and the mother by approximately '' @ toString (100 - w)
       @ ''%.\<newline>          \<newline>          Ensure the image is high quality, clear, and has a neutral background. \<newline>          Focus on facial accuracy and genetic blending.\<newline>        ''"
    by (simp only: prompt_def Let_def)
  have t: "genderTerm it =
        (if 18 < age it then (if gender it = Boy then ''man'' else ''woman'')
         else (if gender it = Boy then ''boy'' else ''girl''))"
    by (simp add: genderTerm_def)
  have r: "read_decimal (toString (age it)) = nat (age it)"
    "read_decimal (toString w) = nat w"
    "read_decimal (toString (100 - w)) = 100 - nat w"
    using a(1) assms(2,3) by (simp_all add: toString_def read_decimal_decimal)
  have c: "contents (request (generateVariation f m w (it, i))) =
        [Part (Some (Blob (mimeType f) (base64Data f))) None,
         Part (Some (Blob (mimeType m) (base64Data m))) None,
         Part None (Some (prompt it w))]"
    by (simp add: buildRequest_def)
  have g: "fatherImg s = Some f \<and> motherImg s = Some m \<and> truthy key \<and>
         tasks g (results s) \<noteq> [] \<longrightarrow>
         runs (generatePrediction key g s) = runs s @ [\<lparr>target = g,
           pending = map (generateVariation f m (fatherDominance s)) (tasks g (results s))\<rparr>]"
    by (simp add: generatePrediction_started)
  have sl: "runs (step key (SliderChange n) s) = runs s" by simp
  show ?thesis
    using p t a(2) r c g sl by - (intro conjI, assumption+)
qed

theorem prompt_from_task_and_weight_witness:
  "genderTerm (initial_results ! 2) = ''man''
   \<and> read_decimal (toString 70) = 70
   \<and> read_decimal (toString (100 - 70)) = 30
   \<and> prompt (initial_results ! 2) 70 =
      ''\<newline>          Generate a photorealistic portrait of a 25-year-old man.\<newline>          This person is the hypothetical child of the two people in the provided images.\<newline>          \<newline>          Blend the physical facial features of the first image (father) and the second image (mother).\<newline>          The facial structure and features should resemble the father by approximately 70% and the mother by approximately 30%.\<newline>          \<newline>          Ensure the image is high quality, clear, and has a neutral background. \<newline>          Focus on facial accuracy and genetic blending.\<newline>        ''"
proof -
  have a: "age (initial_results ! 2) \<in> {5, 15, 25}" by (simp add: initial_results_def)
  have e: "toString 70 = ''70''" "toString (100 - 70) = ''30''"
    "toString (age (initial_results ! 2)) = ''25''"
    "age (initial_results ! 2) = 25" "gender (initial_results ! 2) = Boy"
    by code_simp+
  show ?thesis
    using prompt_from_task_and_weight [OF a, of 70] e by simp
qed

text \<open>
  C9, as stated, fails in its first clause: the code reads \<open>response.candidates[0]\<close> only.
  The response below returns an image in its second candidate; nothing is extracted, the
  call ends in "No image generated" and the record is shown as failed, without an image.
\<close>

theorem later_candidate_counterexample:
  "returned_images image_in_second_candidate = [Blob ''image/png'' ''QQ'']
   \<and> awaited (Resolves image_in_second_candidate) = Inl (Error ''No image generated'')
   \<and> status (results (step (Some ''k'') (Settled 0 0 (Resolves image_in_second_candidate))
        (exec (Some ''k'') boy_run_started initial)) ! 0) = Failed
   \<and> imageUrl (results (step (Some ''k'') (Settled 0 0 (Resolves image_in_second_candidate))
        (exec (Some ''k'') boy_run_started initial)) ! 0) = None"
  by code_simp

text \<open>
  C9, amended. The image extracted from a response is the first image payload among the
  parts of its first candidate: when there is one, the call succeeds with
  "data:image/png;base64," followed by its data, and the record stores that URL and
  nothing is logged. When the first candidate holds none (in particular when the response
  holds no image at all), the call ends in a TypeError or in "No image generated", also
  when a later candidate holds an image; a rejected call ends in the client's error. For
  every such failure the record gets the fixed message "Failed to generate" and is shown
  as failed, whatever the error was; the error itself is appended to the console and the
  message of the component is left alone. A settlement step updates the records exactly
  so.
\<close>

theorem first_candidate_image_or_generic_failure:
  "(first_candidate_images response = b # bs \<longrightarrow>
      awaited (Resolves response) = Inr (''data:image/png;base64,'' @ blob_data b))
   \<and> (first_candidate_images response = [] \<longrightarrow>
      awaited (Resolves response) = Inl TypeError \<or>
      awaited (Resolves response) = Inl (Error ''No image generated''))
   \<and> (returned_images response = [] \<longrightarrow> first_candidate_images response = [])
   \<and> awaited (Rejects e) = Inl (ClientError e)
   \<and> (awaited outcome = Inr url \<and> index v < length (results s) \<longrightarrow>
        (\<exists>response' b' bs'. outcome = Resolves response' \<and>
           first_candidate_images response' = b' # bs' \<and>
           url = ''data:image/png;base64,'' @ blob_data b')
        \<and> results (resume v outcome s) ! index v =
             (item v)\<lparr>loading := False, imageUrl := Some url\<rparr>
        \<and> console (resume v outcome s) = console s)
   \<and> (awaited outcome = Inl err \<and> index v < length (results s) \<longrightarrow>
        results (resume v outcome s) ! index v =
             (item v)\<lparr>loading := False, error := Some ''Failed to generate''\<rparr>
        \<and> status (results (resume v outcome s) ! index v) = Failed
        \<and> console (resume v outcome s) = console s @ [err]
        \<and> appError (resume v outcome s) = appError s)
   \<and> (r < length (runs s) \<and> k < length (pending (runs s ! r)) \<longrightarrow>
        results (step key (Settled r k outcome) s)
          = results (resume (pending (runs s ! r) ! k) outcome s))"
proof -
  have c1: "first_candidate_images response = b # bs \<longrightarrow>
      awaited (Resolves response) = Inr (''data:image/png;base64,'' @ blob_data b)"
    using awaited_first_image [of response b bs] by blast
  have c2: "first_candidate_images response = [] \<longrightarrow>
      awaited (Resolves response) = Inl TypeError \<or>
      awaited (Resolves response) = Inl (Error ''No image generated'')"
    using awaited_no_first_image [of response] by blast
  have c3: "returned_images response = [] \<longrightarrow> first_candidate_images response = []"
    by (auto simp: first_candidate_images_def returned_images_def
        split: option.splits list.splits)
  have c4: "awaited (Rejects e) = Inl (ClientError e)"
    by (simp add: awaited_def)
  have c5: "awaited outcome = Inr url \<and> index v < length (results s) \<longrightarrow>
        (\<exists>response' b' bs'. outcome = Resolves response' \<and>
           first_candidate_images response' = b' # bs' \<and>
           url = ''data:image/png;base64,'' @ blob_data b')
        \<and> results (resume v outcome s) ! index v =
             (item v)\<lparr>loading := False, imageUrl := Some url\<rparr>
        \<and> console (resume v outcome s) = console s"
  proof (intro impI, elim conjE)
    assume u: "awaited outcome = Inr url" and i: "index v < length (results s)"
    have "results (resume v outcome s) ! index v =
             (item v)\<lparr>loading := False, imageUrl := Some url\<rparr>
        \<and> console (resume v outcome s) = console s"
      using u i by (simp add: resume_def resolveSuccess_def)
    with awaited_Inr_first [OF u] show "(\<exists>response' b' bs'. outcome = Resolves response' \<and>
           first_candidate_images response' = b' # bs' \<and>
           url = ''data:image/png;base64,'' @ blob_data b')
        \<and> results (resume v outcome s) ! index v =
             (item v)\<lparr>loading := False, imageUrl := Some url\<rparr>
        \<and> console (resume v outcome s) = console s"
      by blast
  qed
  have c6: "awaited outcome = Inl err \<and> index v < length (results s) \<longrightarrow>
        results (resume v outcome s) ! index v =
             (item v)\<lparr>loading := False, error := Some ''Failed to generate''\<rparr>
        \<and> status (results (resume v outcome s) ! index v) = Failed
        \<and> console (resume v outcome s) = console s @ [err]
        \<and> appError (resume v outcome s) = appError s"
    by (simp add: resume_def resolveFailure_def status_def truthy_def)
  have c7: "r < length (runs s) \<and> k < length (pending (runs s ! r)) \<longrightarrow>
        results (step key (Settled r k outcome) s)
          = results (resume (pending (runs s ! r) ! k) outcome s)"
    by (simp add: settle_results)
  show ?thesis
    using c1 c2 c3 c4 c5 c6 c7 by - (intro conjI, assumption+)
qed

theorem first_candidate_image_or_generic_failure_witness:
  "awaited (image_response ''QQ'') = Inr ''data:image/png;base64,QQ''
   \<and> imageUrl (results (step (Some ''k'') (Settled 0 0 (image_response ''QQ''))
        (exec (Some ''k'') boy_run_started initial)) ! 0) = Some ''data:image/png;base64,QQ''
   \<and> awaited (Resolves image_in_second_candidate) = Inl (Error ''No image generated'')
   \<and> awaited (Rejects ''quota exceeded'') = Inl (ClientError ''quota exceeded'')
   \<and> error (results (step (Some ''k'') (Settled 0 1 (Rejects ''quota exceeded''))
        (exec (Some ''k'') boy_run_started initial)) ! 1) = Some ''Failed to generate''
   \<and> status (results (step (Some ''k'') (Settled 0 1 (Rejects ''quota exceeded''))
        (exec (Some ''k'') boy_run_started initial)) ! 1) = Failed
   \<and> console (resume (pending (runs (exec (Some ''k'') boy_run_started initial) ! 0) ! 1)
        (Rejects ''quota exceeded'') (exec (Some ''k'') boy_run_started initial))
       = [ClientError ''quota exceeded'']"
proof -
  let ?s = "exec (Some ''k'') boy_run_started initial"
  let ?v0 = "pending (runs ?s ! 0) ! 0"
  let ?v1 = "pending (runs ?s ! 0) ! 1"
  let ?R = "GenerateContentResponse (Some
     [Candidate (Some (Content (Some
        [Part None (Some ''Here is the portrait.''),
         Part (Some (Blob ''image/jpeg'' ''QQ'')) None])))])"
  have a: "0 < length (runs ?s)" "0 < length (pending (runs ?s ! 0))"
    "1 < length (pending (runs ?s ! 0))" by code_simp+
  have b: "index ?v0 = 0" "index ?v1 = 1" "0 < length (results ?s)" "1 < length (results ?s)"
    "console ?s = []" by code_simp+
  have i: "first_candidate_images ?R = [Blob ''image/jpeg'' ''QQ'']"
    by (simp add: first_candidate_images_def List.map_filter_simps)
  have R: "image_response ''QQ'' = Resolves ?R" by (simp add: image_response_def)
  have good: "awaited (Resolves ?R) = Inr ''data:image/png;base64,QQ''"
    using first_candidate_image_or_generic_failure
      [of ?R "Blob ''image/jpeg'' ''QQ''" "[]"] i by simp
  have stored: "imageUrl (results (step (Some ''k'') (Settled 0 0 (Resolves ?R)) ?s) ! 0)
      = Some ''data:image/png;base64,QQ''"
    using first_candidate_image_or_generic_failure
      [of ?R "Blob ''image/jpeg'' ''QQ''" "[]" "''x''" "Resolves ?R"
         "''data:image/png;base64,QQ''" ?v0 ?s "Error []" 0 0 "Some ''k''"] good a b
    by simp
  have i2: "first_candidate_images image_in_second_candidate = []"
    by (simp add: first_candidate_images_def image_in_second_candidate_def
        List.map_filter_simps)
  have nt: "awaited (Resolves image_in_second_candidate) \<noteq> Inl TypeError" by code_simp
  have late: "awaited (Resolves image_in_second_candidate) = Inl (Error ''No image generated'')"
    using first_candidate_image_or_generic_failure [of image_in_second_candidate] i2 nt
    by simp
  have rej: "awaited (Rejects ''quota exceeded'') = Inl (ClientError ''quota exceeded'')
    \<and> error (results (step (Some ''k'') (Settled 0 1 (Rejects ''quota exceeded'')) ?s) ! 1)
        = Some ''Failed to generate''
    \<and> status (results (step (Some ''k'') (Settled 0 1 (Rejects ''quota exceeded'')) ?s) ! 1)
        = Failed
    \<and> console (resume ?v1 (Rejects ''quota exceeded'') ?s) = [ClientError ''quota exceeded'']"
    using first_candidate_image_or_generic_failure
      [of "GenerateContentResponse None" "Blob [] []" "[]" "''quota exceeded''"
         "Rejects ''quota exceeded''" "[]" ?v1 ?s "ClientError ''quota exceeded''" 0 1
         "Some ''k''"] a b
    by (simp add: status_def truthy_def)
  show ?thesis using good stored late rej R by simp
qed

text \<open>
  C10. Whenever a step turns a record that was not ready into a ready one, the step is the
  settlement of a call that resolved with a response holding an image, and the stored
  \<open>imageUrl\<close> is "data:image/png;base64," followed by the data of the first image of the
  response, hence not empty. The MIME type the client returned does not occur in it: a
  response whose first part is an image of any MIME type \<open>mime\<close> and any data \<open>d\<close>, the
  empty string included, succeeds with "data:image/png;base64," followed by \<open>d\<close>.
\<close>

theorem ready_payload_is_png_data_url:
  "(i < length (results s) \<and> status (results s ! i) \<noteq> Ready \<and>
      status (results (step key e s) ! i) = Ready \<longrightarrow>
      (\<exists>r k response. e = Settled r k (Resolves response) \<and>
         returned_images response \<noteq> [] \<and>
         imageUrl (results (step key e s) ! i) =
           Some (''data:image/png;base64,'' @ blob_data (hd (returned_images response))) \<and>
         imageUrl (results (step key e s) ! i) \<noteq> Some ''''))
   \<and> awaited (Resolves (GenerateContentResponse (Some
         (Candidate (Some (Content (Some (Part (Some (Blob mime d)) t # ps)))) # cs))))
       = Inr (''data:image/png;base64,'' @ d)"
proof -
  have "\<exists>r k response. e = Settled r k (Resolves response) \<and>
         returned_images response \<noteq> [] \<and>
         imageUrl (results (step key e s) ! i) =
           Some (''data:image/png;base64,'' @ blob_data (hd (returned_images response))) \<and>
         imageUrl (results (step key e s) ! i) \<noteq> Some ''''"
    if i: "i < length (results s)" and before: "status (results s ! i) \<noteq> Ready"
      and after: "status (results (step key e s) ! i) = Ready"
  proof -
    consider "results (step key e s) = results s"
      | g where "e = Click g" "results (step key e s) = beginRun g (results s)"
      | r k outcome where "e = Settled r k outcome" "r < length (runs s)"
          "k < length (pending (runs s ! r))"
          "results (step key e s) = results (resume (pending (runs s ! r) ! k) outcome s)"
      using step_results_cases [of key e s] by blast
    then show ?thesis
    proof cases
      case 1
      then show ?thesis using before after by simp
    next
      case 2
      then show ?thesis using i before after
        by (auto simp: nth_beginRun status_def split: if_splits)
    next
      case 3
      let ?v = "pending (runs s ! r) ! k"
      have idx: "index ?v = i"
        using 3(4) before after by (cases "index ?v = i") (simp_all add: resume_results)
      show ?thesis
      proof (cases "awaited outcome")
        case (Inl err)
        then show ?thesis using 3(4) idx i after
          by (simp add: resume_results status_def truthy_def)
      next
        case (Inr url)
        from awaited_Inr [OF Inr] obtain response where
          "outcome = Resolves response" "returned_images response \<noteq> []"
          "url = ''data:image/png;base64,'' @ blob_data (hd (returned_images response))"
          by blast
        then show ?thesis using 3(1,4) idx i Inr by (simp add: resume_results)
      qed
    qed
  qed
  moreover have "awaited (Resolves (GenerateContentResponse (Some
         (Candidate (Some (Content (Some (Part (Some (Blob mime d)) t # ps)))) # cs))))
       = Inr (''data:image/png;base64,'' @ d)"
    by (simp add: awaited_def generatedUrl_def)
  ultimately show ?thesis by blast
qed

theorem ready_payload_is_png_data_url_witness:
  "status (results (exec (Some ''k'') boy_run_started initial) ! 0) = Loading
   \<and> status (results (step (Some ''k'') (Settled 0 0 (image_response ''''))
        (exec (Some ''k'') boy_run_started initial)) ! 0) = Ready
   \<and> imageUrl (results (step (Some ''k'') (Settled 0 0 (image_response ''''))
        (exec (Some ''k'') boy_run_started initial)) ! 0) = Some ''data:image/png;base64,''"
proof -
  let ?s = "exec (Some ''k'') boy_run_started initial"
  let ?e = "Settled 0 0 (image_response '''')"
  have a: "0 < length (results ?s)" by code_simp
  have b: "status (results ?s ! 0) = Loading" by code_simp
  have c: "status (results (step (Some ''k'') ?e ?s) ! 0) = Ready" by code_simp
  have d: "returned_images response = [Blob ''image/jpeg'' '''']"
    if "?e = Settled r k (Resolves response)" for r k response
    using that by (auto simp: image_response_def returned_images_def List.map_filter_simps)
  have b': "status (results ?s ! 0) \<noteq> Ready" by code_simp
  have "\<exists>r k response. ?e = Settled r k (Resolves response) \<and>
         returned_images response \<noteq> [] \<and>
         imageUrl (results (step (Some ''k'') ?e ?s) ! 0) =
           Some (''data:image/png;base64,'' @ blob_data (hd (returned_images response))) \<and>
         imageUrl (results (step (Some ''k'') ?e ?s) ! 0) \<noteq> Some ''''"
    by (rule mp [OF conjunct1 [OF ready_payload_is_png_data_url]]) (intro conjI a b' c)
  then obtain r k response where e: "?e = Settled r k (Resolves response)"
    and u: "imageUrl (results (step (Some ''k'') ?e ?s) ! 0) =
       Some (''data:image/png;base64,'' @ blob_data (hd (returned_images response)))"
    by blast
  show ?thesis using b c u d [OF e] by simp
qed

end
